theory Spec2Isabelle
  imports Main "HOL-Library.AList"
begin

section \<open>The preview-links markdown extension of django-wiki\<close>

text \<open>
  The module \<^verbatim>\<open>wiki/core/markdown/mdx/previewlinks.py\<close> holds a markdown extension
  and its tree processor. The tree processor walks the element tree of a rendered
  document and mutates anchors in place; the extension registers the processor in the
  markdown instance's registry of tree processors. Both lean on two libraries: the
  element tree (\<^verbatim>\<open>findall\<close>, \<^verbatim>\<open>get\<close>, \<^verbatim>\<open>set\<close>) and the registry of Python-Markdown
  (\<^verbatim>\<open>_sort\<close>, \<^verbatim>\<open>_priority\<close>, \<^verbatim>\<open>register\<close>). The parts of them that the module calls are
  modelled first, the module's own two methods after them.
\<close>

subsection \<open>Exceptions\<close>

text \<open>
  \<^verbatim>\<open>AttributeError\<close>: \<^verbatim>\<open>a.get("href")\<close> gave \<^verbatim>\<open>None\<close> and \<^verbatim>\<open>None.startswith\<close> was called.
  \<^verbatim>\<open>IndexError\<close>: \<^verbatim>\<open>_priority[-1]\<close> on an empty list, or \<^verbatim>\<open>[...][0]\<close> on an empty list.
  \<^verbatim>\<open>ValueError\<close>: the registry's \<^verbatim>\<open>get_index_for_name\<close> on an unknown name.
\<close>

datatype error = AttributeError | IndexError | ValueError

subsection \<open>Element trees\<close>

text \<open>
  An element has a tag, a dictionary of attributes (insertion ordered, as Python's
  dictionaries are), a text, a tail and a list of children.
\<close>

datatype element =
  Element (tag: string) (attrib: "(string \<times> string) list")
    (elem_text: "string option") (elem_tail: "string option") (children: "element list")

text \<open>
  The tree processor mutates elements in place while it holds references to them. A
  reference to an element of a tree is the list of child indices that leads to it from
  the root; the root's own reference is the empty list. The tree is the store the
  references point into.
\<close>

type_synonym ref = "nat list"

fun subelement :: "element \<Rightarrow> ref \<Rightarrow> element option" where
  "subelement e [] = Some e"
| "subelement e (i # p) =
     (if i < length (children e) then subelement (children e ! i) p else None)"

text \<open>In-place change of the element a reference points to; the rest of the tree stays.\<close>

fun update_at :: "(element \<Rightarrow> element) \<Rightarrow> ref \<Rightarrow> element \<Rightarrow> element" where
  "update_at f [] e = f e"
| "update_at f (i # p) e =
     (if i < length (children e)
      then Element (tag e) (attrib e) (elem_text e) (elem_tail e)
             ((children e)[i := update_at f p (children e ! i)])
      else e)"

text \<open>
  \<^verbatim>\<open>Element.iter()\<close>: the element itself and then all its descendants, in document
  order (each child's subtree in turn).
\<close>

fun iter :: "element \<Rightarrow> ref list" and iter_from :: "nat \<Rightarrow> element list \<Rightarrow> ref list" where
  "iter (Element t a tx ta cs) = [] # iter_from 0 cs"
| "iter_from i [] = []"
| "iter_from i (c # cs) = map ((#) i) (iter c) @ iter_from (Suc i) cs"

text \<open>
  \<^verbatim>\<open>root.findall(".//" + t)\<close>: the path selects, among the elements \<^verbatim>\<open>root.iter(t)\<close>
  yields, those that are not \<^verbatim>\<open>root\<close> itself. The result is a list built before the
  caller's loop starts.
\<close>

definition findall :: "element \<Rightarrow> string \<Rightarrow> ref list" where
  "findall root t =
     filter (\<lambda>r. r \<noteq> [] \<and> map_option tag (subelement root r) = Some t) (iter root)"

text \<open>\<^verbatim>\<open>e.get(key)\<close> is \<^verbatim>\<open>e.attrib.get(key)\<close>; \<^verbatim>\<open>e.set(key, value)\<close> is \<^verbatim>\<open>e.attrib[key] = value\<close>.\<close>

definition elem_get :: "element \<Rightarrow> string \<Rightarrow> string option" where
  "elem_get e k = map_of (attrib e) k"

definition elem_set :: "string \<Rightarrow> string \<Rightarrow> element \<Rightarrow> element" where
  "elem_set k v e =
     Element (tag e) (AList.update k v (attrib e)) (elem_text e) (elem_tail e) (children e)"

text \<open>\<^verbatim>\<open>s.startswith(p)\<close>.\<close>

fun startswith :: "string \<Rightarrow> string \<Rightarrow> bool" where
  "startswith s [] = True"
| "startswith [] (c # p) = False"
| "startswith (d # s) (c # p) = (d = c \<and> startswith s p)"

subsection \<open>The registry of tree processors\<close>

text \<open>
  Python-Markdown keeps its tree processors in a \<^verbatim>\<open>Registry\<close>: a dictionary \<^verbatim>\<open>_data\<close>
  from names to items, a list \<^verbatim>\<open>_priority\<close> of \<^verbatim>\<open>_PriorityItem(name, priority)\<close>, and
  a flag \<^verbatim>\<open>_is_sorted\<close>. Priorities are taken as integers, as those of the library's
  own tree processors are. An item is a tree processor object; only the one this module
  defines is told apart from the others.
\<close>

datatype treeprocessor = PreviewLinksTree | OtherTreeprocessor string

record priority_item =
  name :: string
  priority :: int

record registry =
  r_data :: "(string \<times> treeprocessor) list"
  r_priority :: "priority_item list"
  r_is_sorted :: bool

text \<open>\<^verbatim>\<open>name in self\<close>, for a string: \<^verbatim>\<open>name in self._data.keys()\<close>.\<close>

definition contains :: "registry \<Rightarrow> string \<Rightarrow> bool" where
  "contains reg n = (n \<in> fst ` set (r_data reg))"

text \<open>
  \<^verbatim>\<open>_sort\<close>: unless the flag says the list is sorted,
  \<^verbatim>\<open>self._priority.sort(key=lambda item: item.priority, reverse=True)\<close>, a stable sort
  into descending priority (items of equal priority keep their order), and the flag is
  set.
\<close>

definition r_sort :: "registry \<Rightarrow> registry" where
  "r_sort reg =
     (if \<not> r_is_sorted reg
      then reg\<lparr>r_priority := sort_key (\<lambda>item. - priority item) (r_priority reg),
               r_is_sorted := True\<rparr>
      else reg)"

text \<open>\<^verbatim>\<open>xs.index(x)\<close>: the first position holding a value equal to \<open>x\<close>; none raises.\<close>

fun list_index :: "'a list \<Rightarrow> 'a \<Rightarrow> nat option" where
  "list_index [] x = None"
| "list_index (y # ys) x = (if y = x then Some 0 else map_option Suc (list_index ys x))"

text \<open>
  \<^verbatim>\<open>get_index_for_name\<close>: for a registered name, sort, then
  \<^verbatim>\<open>self._priority.index([x for x in self._priority if x.name == name][0])\<close>; for any
  other name \<^verbatim>\<open>ValueError\<close>. The registry is returned too, since the call may sort it.
\<close>

definition get_index_for_name :: "registry \<Rightarrow> string \<Rightarrow> (error + nat) \<times> registry" where
  "get_index_for_name reg n =
     (if contains reg n
      then (let reg' = r_sort reg in
            case filter (\<lambda>x. name x = n) (r_priority reg') of
              [] \<Rightarrow> (Inl IndexError, reg')
            | x # _ \<Rightarrow>
                (case list_index (r_priority reg') x of
                   None \<Rightarrow> (Inl ValueError, reg')
                 | Some i \<Rightarrow> (Inr i, reg')))
      else (Inl ValueError, reg))"

text \<open>
  \<^verbatim>\<open>deregister(name)\<close> with the default \<^verbatim>\<open>strict=True\<close>: \<^verbatim>\<open>del self._priority[index]\<close>
  and \<^verbatim>\<open>del self._data[name]\<close>; an exception of the lookup passes through.
\<close>

definition deregister :: "registry \<Rightarrow> string \<Rightarrow> (error + unit) \<times> registry" where
  "deregister reg n =
     (case get_index_for_name reg n of
        (Inl e, reg') \<Rightarrow> (Inl e, reg')
      | (Inr i, reg') \<Rightarrow>
          (Inr (),
           reg'\<lparr>r_priority := take i (r_priority reg') @ drop (Suc i) (r_priority reg'),
                r_data := AList.delete n (r_data reg')\<rparr>))"

text \<open>
  \<^verbatim>\<open>register(item, name, priority)\<close>: an item already registered under the name is
  removed first; then the flag is cleared, the item stored and its priority appended.
\<close>

definition register ::
  "registry \<Rightarrow> treeprocessor \<Rightarrow> string \<Rightarrow> int \<Rightarrow> (error + unit) \<times> registry" where
  "register reg item n p =
     (case (if contains reg n then deregister reg n else (Inr (), reg)) of
        (Inl e, reg') \<Rightarrow> (Inl e, reg')
      | (Inr u, reg') \<Rightarrow>
          (Inr (),
           reg'\<lparr>r_is_sorted := False,
                r_data := AList.update n item (r_data reg'),
                r_priority := r_priority reg' @ [\<lparr>name = n, priority = p\<rparr>]\<rparr>))"

text \<open>
  Iterating a registry sorts it and visits the items in the order of \<^verbatim>\<open>_priority\<close>;
  the markdown instance runs its tree processors in that order. The order, by name:
\<close>

definition processing_order :: "registry \<Rightarrow> string list" where
  "processing_order reg = map name (r_priority (r_sort reg))"

text \<open>
  What every registry built with \<^verbatim>\<open>Registry()\<close>, \<^verbatim>\<open>register\<close> and \<^verbatim>\<open>deregister\<close>
  satisfies: each name is listed once, the dictionary and the list hold the same names,
  and the flag is set only when the list is in descending priority.
\<close>

definition registry_inv :: "registry \<Rightarrow> bool" where
  "registry_inv reg =
     (distinct (map name (r_priority reg))
      \<and> set (map name (r_priority reg)) = fst ` set (r_data reg)
      \<and> distinct (map fst (r_data reg))
      \<and> (r_is_sorted reg \<longrightarrow> sorted (map (\<lambda>item. - priority item) (r_priority reg))))"

definition empty_registry :: registry where
  "empty_registry = \<lparr>r_data = [], r_priority = [], r_is_sorted = False\<rparr>"

subsection \<open>The module: PreviewLinksExtension and PreviewLinksTree\<close>

text \<open>
  Of the markdown instance the module reads \<^verbatim>\<open>md.treeprocessors\<close> and \<^verbatim>\<open>md.preview\<close>.
\<close>

record markdown =
  treeprocessors :: registry
  preview :: bool

text \<open>
  \<^verbatim>\<open>PreviewLinksExtension.extendMarkdown(md)\<close>:
  \<^verbatim>\<open>
    md.treeprocessors._sort()
    priority = md.treeprocessors._priority[-1].priority - 5
    md.treeprocessors.register(PreviewLinksTree(md), "previewlinks", priority)
  \<close>
  The second line raises \<^verbatim>\<open>IndexError\<close> on an empty list.
\<close>

definition extendMarkdown :: "markdown \<Rightarrow> (error + unit) \<times> markdown" where
  "extendMarkdown md =
     (let reg = r_sort (treeprocessors md) in
      case r_priority reg of
        [] \<Rightarrow> (Inl IndexError, md\<lparr>treeprocessors := reg\<rparr>)
      | _ # _ \<Rightarrow>
          (let p = priority (last (r_priority reg)) - 5 in
           case register reg PreviewLinksTree ''previewlinks'' p of
             (res, reg') \<Rightarrow> (res, md\<lparr>treeprocessors := reg'\<rparr>)))"

text \<open>
  The loop of \<^verbatim>\<open>PreviewLinksTree.run\<close> over the anchors \<^verbatim>\<open>findall\<close> returned:
  \<^verbatim>\<open>
    for a in root.findall(".//a"):
        if not a.get("href").startswith("#"):
            a.set("target", "_blank")
  \<close>
  The state is the tree; \<^verbatim>\<open>a.set\<close> changes it in place. When \<^verbatim>\<open>a.get("href")\<close> is
  \<^verbatim>\<open>None\<close> the call of \<^verbatim>\<open>startswith\<close> raises and the loop stops, the changes made so far
  staying. A reference that points to no element of the tree is passed over: no
  reference of \<open>findall\<close> is such (\<open>for_anchors_valid\<close> below).
\<close>

fun for_anchors :: "ref list \<Rightarrow> element \<Rightarrow> (error + unit) \<times> element" where
  "for_anchors [] root = (Inr (), root)"
| "for_anchors (a # rs) root =
     (case subelement root a of
        None \<Rightarrow> for_anchors rs root
      | Some e \<Rightarrow>
          (case elem_get e ''href'' of
             None \<Rightarrow> (Inl AttributeError, root)
           | Some href \<Rightarrow>
               if \<not> startswith href ''#''
               then for_anchors rs (update_at (elem_set ''target'' ''_blank'') a root)
               else for_anchors rs root))"

text \<open>
  \<^verbatim>\<open>PreviewLinksTree.run(root)\<close>: the loop when \<^verbatim>\<open>self.md.preview\<close> holds, then
  \<^verbatim>\<open>return root\<close>. The result is the value returned (the reference of the root, \<open>[]\<close>)
  or the exception, together with the tree as the call leaves it.
\<close>

definition run :: "markdown \<Rightarrow> element \<Rightarrow> (error + ref) \<times> element" where
  "run md root =
     (if preview md
      then (case for_anchors (findall root ''a'') root of
              (Inl e, root') \<Rightarrow> (Inl e, root')
            | (Inr u, root') \<Rightarrow> (Inr [], root'))
      else (Inr [], root))"

subsection \<open>What a tree looks like through its references\<close>

text \<open>
  The attributes, the tag and the value of one attribute of the element a reference
  points to (\<open>None\<close> when it points to no element, or the element lacks the attribute),
  and the tree with every attribute dictionary emptied: two trees with the same skeleton
  differ in attributes only.
\<close>

definition attrib_at :: "element \<Rightarrow> ref \<Rightarrow> (string \<times> string) list option" where
  "attrib_at root r = map_option attrib (subelement root r)"

definition tag_at :: "element \<Rightarrow> ref \<Rightarrow> string option" where
  "tag_at root r = map_option tag (subelement root r)"

definition get_at :: "element \<Rightarrow> ref \<Rightarrow> string \<Rightarrow> string option" where
  "get_at root r k = Option.bind (subelement root r) (\<lambda>e. elem_get e k)"

fun skeleton :: "element \<Rightarrow> element" where
  "skeleton (Element t a tx ta cs) = Element t [] tx ta (map skeleton cs)"

definition lacks_href :: "element \<Rightarrow> ref \<Rightarrow> bool" where
  "lacks_href root r = (subelement root r \<noteq> None \<and> get_at root r ''href'' = None)"

section \<open>Properties of the element tree\<close>

subsection \<open>References and in-place updates\<close>

text \<open>
  A change at one reference that keeps the children of the changed element is seen at
  that reference only, by every observation \<open>g\<close> that does not look at children.
\<close>

lemma proj_update_at:
  assumes g: "\<And>e cs. g (Element (tag e) (attrib e) (elem_text e) (elem_tail e) cs) = g e"
    and f: "\<And>e. children (f e) = children e"
  shows "map_option g (subelement (update_at f r e) r') =
           (if r' = r then map_option (\<lambda>x. g (f x)) (subelement e r)
            else map_option g (subelement e r'))"
proof (induction r arbitrary: e r')
  case Nil
  show ?case by (cases r') (simp_all add: f)
next
  case (Cons i p)
  show ?case
  proof (cases "i < length (children e)")
    case False
    then show ?thesis by simp
  next
    case True
    show ?thesis
    proof (cases r')
      case Nil
      then show ?thesis using True by (simp add: g)
    next
      case (Cons j q)
      then show ?thesis using True Cons.IH [of "children e ! i" q]
        by (auto simp: nth_list_update)
    qed
  qed
qed

lemma attrib_at_update_at:
  "attrib_at (update_at (elem_set k v) r e) r' =
     (if r' = r then map_option (AList.update k v) (attrib_at e r) else attrib_at e r')"
  unfolding attrib_at_def
  by (subst proj_update_at) (simp_all add: elem_set_def option.map_comp comp_def)

lemma tag_at_update_at: "tag_at (update_at (elem_set k v) r e) r' = tag_at e r'"
  unfolding tag_at_def
  by (subst proj_update_at) (simp_all add: elem_set_def)

lemma get_at_attrib_at: "get_at e r k = Option.bind (attrib_at e r) (\<lambda>a. map_of a k)"
  by (cases "subelement e r") (simp_all add: get_at_def attrib_at_def elem_get_def)

lemma get_at_update_at:
  "get_at (update_at (elem_set k v) r e) r' k' =
     (if r' = r \<and> k' = k \<and> subelement e r \<noteq> None then Some v else get_at e r' k')"
proof -
  have "(attrib_at e r = None) = (subelement e r = None)"
    by (simp add: attrib_at_def)
  then show ?thesis
    by (cases "attrib_at e r")
       (auto simp: get_at_attrib_at attrib_at_update_at update_conv')
qed

lemma subelement_update_at_None:
  "(subelement (update_at (elem_set k v) r e) r' = None) = (subelement e r' = None)"
  using tag_at_update_at [of k v r e r'] unfolding tag_at_def
  by (metis option.map_disc_iff)

lemma lacks_href_update_at:
  "lacks_href (update_at (elem_set ''target'' v) a root) r = lacks_href root r"
  by (simp add: lacks_href_def subelement_update_at_None get_at_update_at)

text \<open>Setting an attribute anywhere leaves the skeleton of the tree as it was.\<close>

lemma skeleton_update_at:
  assumes f: "\<And>e. skeleton (f e) = skeleton e"
  shows "skeleton (update_at f r e) = skeleton e"
proof (induction r arbitrary: e)
  case Nil
  show ?case by (simp add: f)
next
  case (Cons i p)
  obtain t a tx ta cs where e: "e = Element t a tx ta cs" by (cases e)
  show ?case
  proof (cases "i < length cs")
    case False
    then show ?thesis by (simp add: e)
  next
    case True
    have "map skeleton (cs[i := update_at f p (cs ! i)]) = (map skeleton cs)[i := skeleton (cs ! i)]"
      by (simp add: map_update Cons.IH)
    also have "\<dots> = map skeleton cs"
      using True by (metis list_update_id nth_map)
    finally show ?thesis using True by (simp add: e)
  qed
qed

lemma skeleton_elem_set: "skeleton (elem_set k v e) = skeleton e"
  by (cases e) (simp add: elem_set_def)

subsection \<open>What \<open>iter\<close> and \<open>findall\<close> return\<close>

text \<open>
  \<open>iter\<close> lists exactly the references that point to an element of the tree, so
  \<open>findall root t\<close> lists exactly the elements with tag \<open>t\<close> strictly below the root:
  every reference the loop of \<open>run\<close> receives points to an element.
\<close>

lemma iter_subelement:
  "(r \<in> set (iter e)) = (subelement e r \<noteq> None)"
  "(r \<in> set (iter_from i cs)) = (\<exists>j q. r = (i + j) # q \<and> j < length cs \<and> subelement (cs ! j) q \<noteq> None)"
proof (induction e and i cs arbitrary: r and r rule: iter_iter_from.induct)
  case (1 t a tx ta cs)
  show ?case
  proof (cases r)
    case Nil
    then show ?thesis by simp
  next
    case (Cons j q)
    then show ?thesis using 1 [of r] by auto
  qed
next
  case (2 i)
  show ?case by simp
next
  case (3 i c cs)
  have "(r \<in> set (iter_from i (c # cs))) =
          ((\<exists>q. r = i # q \<and> subelement c q \<noteq> None) \<or>
           (\<exists>j q. r = (Suc i + j) # q \<and> j < length cs \<and> subelement (cs ! j) q \<noteq> None))"
    using 3 [of r] "3.IH"(1) by auto
  also have "\<dots> = (\<exists>j q. r = (i + j) # q \<and> j < length (c # cs) \<and> subelement ((c # cs) ! j) q \<noteq> None)"
  proof
    assume "(\<exists>q. r = i # q \<and> subelement c q \<noteq> None) \<or>
           (\<exists>j q. r = (Suc i + j) # q \<and> j < length cs \<and> subelement (cs ! j) q \<noteq> None)"
    then show "\<exists>j q. r = (i + j) # q \<and> j < length (c # cs) \<and> subelement ((c # cs) ! j) q \<noteq> None"
    proof
      assume "\<exists>q. r = i # q \<and> subelement c q \<noteq> None"
      then obtain q where "r = (i + 0) # q" "subelement c q \<noteq> None" by auto
      then show ?thesis by (intro exI [of _ 0] exI [of _ q]) simp
    next
      assume "\<exists>j q. r = (Suc i + j) # q \<and> j < length cs \<and> subelement (cs ! j) q \<noteq> None"
      then obtain j q where "r = (Suc i + j) # q" "j < length cs" "subelement (cs ! j) q \<noteq> None" by auto
      then show ?thesis by (intro exI [of _ "Suc j"] exI [of _ q]) simp
    qed
  next
    assume "\<exists>j q. r = (i + j) # q \<and> j < length (c # cs) \<and> subelement ((c # cs) ! j) q \<noteq> None"
    then obtain j q where jq: "r = (i + j) # q" "j < length (c # cs)" "subelement ((c # cs) ! j) q \<noteq> None" by auto
    show "(\<exists>q. r = i # q \<and> subelement c q \<noteq> None) \<or>
           (\<exists>j q. r = (Suc i + j) # q \<and> j < length cs \<and> subelement (cs ! j) q \<noteq> None)"
    proof (cases j)
      case 0
      then show ?thesis using jq by simp
    next
      case (Suc j')
      then have "r = (Suc i + j') # q \<and> j' < length cs \<and> subelement (cs ! j') q \<noteq> None" using jq by simp
      then show ?thesis by blast
    qed
  qed
  finally show ?case .
qed

lemma set_findall: "set (findall root t) = {r. r \<noteq> [] \<and> tag_at root r = Some t}"
  by (auto simp: findall_def tag_at_def iter_subelement(1))

lemma for_anchors_valid: "r \<in> set (findall root t) \<Longrightarrow> subelement root r \<noteq> None"
  by (auto simp: set_findall tag_at_def)

section \<open>Properties of PreviewLinksTree.run\<close>

subsection \<open>The loop\<close>

text \<open>
  The loop changes attributes only, never a tag or an \<^verbatim>\<open>href\<close>: what it reads at a
  reference late in the list is what the tree held there at the start.
\<close>

lemma for_anchors_skeleton: "skeleton (snd (for_anchors rs root)) = skeleton root"
  by (induction rs arbitrary: root)
     (simp_all add: skeleton_update_at skeleton_elem_set split: option.splits)

lemma for_anchors_tag_at: "tag_at (snd (for_anchors rs root)) r = tag_at root r"
  by (induction rs arbitrary: root)
     (simp_all add: tag_at_update_at split: option.splits)

lemma for_anchors_href_at:
  "get_at (snd (for_anchors rs root)) r ''href'' = get_at root r ''href''"
  by (induction rs arbitrary: root)
     (simp_all add: get_at_update_at split: option.splits)

text \<open>The loop raises exactly when one of its references points to an element without \<^verbatim>\<open>href\<close>.\<close>

lemma for_anchors_result:
  "fst (for_anchors rs root) =
     (if \<exists>r \<in> set rs. lacks_href root r then Inl AttributeError else Inr ())"
proof (induction rs arbitrary: root)
  case Nil
  show ?case by simp
next
  case (Cons a rs)
  show ?case
  proof (cases "subelement root a")
    case None
    then have "\<not> lacks_href root a" by (simp add: lacks_href_def)
    then show ?thesis using None Cons.IH [of root] by simp
  next
    case (Some e)
    show ?thesis
    proof (cases "elem_get e ''href''")
      case None
      then have "lacks_href root a" using Some by (simp add: lacks_href_def get_at_def)
      then show ?thesis using Some None by simp
    next
      case (Some h)
      then have a: "\<not> lacks_href root a"
        using \<open>subelement root a = Some e\<close> by (simp add: lacks_href_def get_at_def)
      show ?thesis
      proof (cases "startswith h ''#''")
        case True
        then show ?thesis
          using \<open>subelement root a = Some e\<close> Some a Cons.IH [of root] by simp
      next
        case False
        then show ?thesis
          using \<open>subelement root a = Some e\<close> Some a
            Cons.IH [of "update_at (elem_set ''target'' ''_blank'') a root"]
          by (simp add: lacks_href_update_at)
      qed
    qed
  qed
qed

text \<open>
  Whatever the outcome, the attributes at a reference are those of the start, or those
  with \<^verbatim>\<open>target\<close> set, the latter only at a reference of the list whose \<^verbatim>\<open>href\<close> does not
  start with \<^verbatim>\<open>#\<close>.
\<close>

lemma for_anchors_attrib_at:
  "attrib_at (snd (for_anchors rs root)) r = attrib_at root r
   \<or> (r \<in> set rs \<and> (\<exists>h. get_at root r ''href'' = Some h \<and> \<not> startswith h ''#'')
      \<and> attrib_at (snd (for_anchors rs root)) r =
          map_option (AList.update ''target'' ''_blank'') (attrib_at root r))"
proof (induction rs arbitrary: root)
  case Nil
  show ?case by simp
next
  case (Cons a rs)
  show ?case
  proof (cases "subelement root a")
    case None
    then show ?thesis using Cons.IH [of root] by auto
  next
    case (Some e)
    show ?thesis
    proof (cases "elem_get e ''href''")
      case None
      then show ?thesis using Some by simp
    next
      case (Some h)
      note e = \<open>subelement root a = Some e\<close>
      show ?thesis
      proof (cases "startswith h ''#''")
        case True
        then show ?thesis using e Some Cons.IH [of root] by auto
      next
        case False
        let ?root1 = "update_at (elem_set ''target'' ''_blank'') a root"
        have step: "for_anchors (a # rs) root = for_anchors rs ?root1"
          using e Some False by simp
        have ha: "get_at root a ''href'' = Some h"
          using e Some by (simp add: get_at_def)
        have a1: "attrib_at ?root1 r =
            (if r = a then map_option (AList.update ''target'' ''_blank'') (attrib_at root r)
             else attrib_at root r)"
          by (simp add: attrib_at_update_at)
        have h1: "get_at ?root1 r ''href'' = get_at root r ''href''"
          by (simp add: get_at_update_at)
        from Cons.IH [of ?root1] show ?thesis
          unfolding step a1 h1 using ha False
          by (cases "r = a") (auto simp: option.map_comp comp_def)
      qed
    qed
  qed
qed

text \<open>When the loop ends without an exception, every such reference of the list has got its \<^verbatim>\<open>target\<close>.\<close>

lemma for_anchors_sets:
  assumes "r \<in> set rs" and "get_at root r ''href'' = Some h" and "\<not> startswith h ''#''"
    and "fst (for_anchors rs root) = Inr ()"
  shows "attrib_at (snd (for_anchors rs root)) r =
           map_option (AList.update ''target'' ''_blank'') (attrib_at root r)"
  using assms
proof (induction rs arbitrary: root)
  case Nil
  then show ?case by simp
next
  case (Cons a rs)
  show ?case
  proof (cases "subelement root a")
    case None
    then have "r \<noteq> a" using Cons.prems(2) by (auto simp: get_at_def)
    then show ?thesis using None Cons by simp
  next
    case (Some e)
    note e = this
    show ?thesis
    proof (cases "elem_get e ''href''")
      case None
      then show ?thesis using e Cons.prems(4) by simp
    next
      case (Some h')
      let ?root1 = "update_at (elem_set ''target'' ''_blank'') a root"
      have h1: "get_at ?root1 r ''href'' = get_at root r ''href''"
        by (simp add: get_at_update_at)
      show ?thesis
      proof (cases "startswith h' ''#''")
        case True
        then have "r \<noteq> a" using e Some Cons.prems(2,3) by (auto simp: get_at_def)
        then show ?thesis using e Some True Cons by simp
      next
        case False
        have step: "for_anchors (a # rs) root = for_anchors rs ?root1"
          using e Some False by simp
        show ?thesis
        proof (cases "r = a")
          case True
          have "attrib_at ?root1 r = map_option (AList.update ''target'' ''_blank'') (attrib_at root r)"
            using True by (simp add: attrib_at_update_at)
          then show ?thesis
            unfolding step using for_anchors_attrib_at [of rs ?root1 r]
            by (auto simp: option.map_comp comp_def)
        next
          case False
          then have "r \<in> set rs" using Cons.prems(1) by simp
          moreover have "attrib_at ?root1 r = attrib_at root r"
            using False by (simp add: attrib_at_update_at)
          ultimately show ?thesis
            unfolding step using Cons.IH [of ?root1] Cons.prems(2,3,4) h1 step by simp
        qed
      qed
    qed
  qed
qed

subsection \<open>The method\<close>

lemma run_result:
  "fst (run md root) =
     (if preview md \<and> (\<exists>r. r \<noteq> [] \<and> tag_at root r = Some ''a'' \<and> get_at root r ''href'' = None)
      then Inl AttributeError else Inr [])"
proof -
  have "(\<exists>r \<in> set (findall root ''a''). lacks_href root r) =
        (\<exists>r. r \<noteq> [] \<and> tag_at root r = Some ''a'' \<and> get_at root r ''href'' = None)"
    by (auto simp: set_findall lacks_href_def tag_at_def)
  then show ?thesis
    using for_anchors_result [of "findall root ''a''" root]
    by (cases "for_anchors (findall root ''a'') root")
       (auto simp: run_def split: sum.splits)
qed

lemma run_tree:
  "snd (run md root) = (if preview md then snd (for_anchors (findall root ''a'') root) else root)"
  by (cases "for_anchors (findall root ''a'') root") (auto simp: run_def split: sum.splits)

text \<open>
  What the method does achieve. In preview mode, when every anchor below the root
  carries an \<^verbatim>\<open>href\<close>, \<open>run\<close> returns the root it was given, and every anchor below the
  root whose \<^verbatim>\<open>href\<close> does not start with \<^verbatim>\<open>#\<close> is still an anchor and has \<^verbatim>\<open>target\<close>
  equal to \<^verbatim>\<open>_blank\<close> afterwards. The anchors are those \<^verbatim>\<open>findall(".//a")\<close> matches: the
  elements with tag \<^verbatim>\<open>a\<close> strictly below the root (\<open>set_findall\<close>).
\<close>

lemma run_preview_sets_target:
  assumes "preview md"
    and "\<forall>r. r \<noteq> [] \<and> tag_at root r = Some ''a'' \<longrightarrow> get_at root r ''href'' \<noteq> None"
  shows "fst (run md root) = Inr [] \<and>
         (\<forall>r h. r \<noteq> [] \<and> tag_at root r = Some ''a'' \<and> get_at root r ''href'' = Some h
                 \<and> \<not> startswith h ''#''
              \<longrightarrow> tag_at (snd (run md root)) r = Some ''a''
                  \<and> get_at (snd (run md root)) r ''target'' = Some ''_blank'')"
proof (intro conjI allI impI)
  show ok: "fst (run md root) = Inr []"
    using assms by (auto simp: run_result)
  fix r h
  assume a: "r \<noteq> [] \<and> tag_at root r = Some ''a'' \<and> get_at root r ''href'' = Some h
                 \<and> \<not> startswith h ''#''"
  let ?rs = "findall root ''a''"
  have snd_run: "snd (run md root) = snd (for_anchors ?rs root)"
    using assms(1) by (simp add: run_tree)
  show "tag_at (snd (run md root)) r = Some ''a''"
    using a by (simp add: snd_run for_anchors_tag_at)
  have "\<not> (\<exists>r \<in> set ?rs. lacks_href root r)"
    using assms(2) by (auto simp: set_findall lacks_href_def)
  then have "fst (for_anchors ?rs root) = Inr ()"
    by (simp add: for_anchors_result)
  moreover have "r \<in> set ?rs" using a by (simp add: set_findall)
  ultimately have "attrib_at (snd (for_anchors ?rs root)) r =
           map_option (AList.update ''target'' ''_blank'') (attrib_at root r)"
    using a for_anchors_sets [of r ?rs root h] by simp
  moreover have "attrib_at root r \<noteq> None" using a by (auto simp: attrib_at_def tag_at_def)
  ultimately show "get_at (snd (run md root)) r ''target'' = Some ''_blank''"
    by (auto simp: snd_run get_at_attrib_at update_conv')
qed

text \<open>
  The lemma at a document with an external link, a fragment link and a link nested in
  a paragraph that had a \<^verbatim>\<open>target\<close> already.
\<close>

lemma run_preview_sets_target_example:
  "preview \<lparr>treeprocessors = empty_registry, preview = True\<rparr>
   \<and> fst (run \<lparr>treeprocessors = empty_registry, preview = True\<rparr>
        (Element ''div'' [] None None
           [Element ''a'' [(''href'', ''http://example.org/'')] (Some ''x'') None [],
            Element ''a'' [(''href'', ''#top'')] None None [],
            Element ''p'' [] None None
              [Element ''a'' [(''href'', ''/wiki/''), (''target'', ''_self'')] None None []]]))
       = Inr []
   \<and> get_at (snd (run \<lparr>treeprocessors = empty_registry, preview = True\<rparr>
        (Element ''div'' [] None None
           [Element ''a'' [(''href'', ''http://example.org/'')] (Some ''x'') None [],
            Element ''a'' [(''href'', ''#top'')] None None [],
            Element ''p'' [] None None
              [Element ''a'' [(''href'', ''/wiki/''), (''target'', ''_self'')] None None []]])))
        [2, 0] ''target'' = Some ''_blank''"
proof -
  let ?md = "\<lparr>treeprocessors = empty_registry, preview = True\<rparr>"
  let ?root = "Element ''div'' [] None None
           [Element ''a'' [(''href'', ''http://example.org/'')] (Some ''x'') None [],
            Element ''a'' [(''href'', ''#top'')] None None [],
            Element ''p'' [] None None
              [Element ''a'' [(''href'', ''/wiki/''), (''target'', ''_self'')] None None []]]"
  have p: "preview ?md" by simp
  have anchors: "findall ?root ''a'' = [[0], [1], [2, 0]]"
    by (simp add: findall_def)
  have h: "\<forall>r. r \<noteq> [] \<and> tag_at ?root r = Some ''a'' \<longrightarrow> get_at ?root r ''href'' \<noteq> None"
  proof (intro allI impI)
    fix r
    assume "r \<noteq> [] \<and> tag_at ?root r = Some ''a''"
    then have "r \<in> set (findall ?root ''a'')" by (simp add: set_findall)
    then have "r = [0] \<or> r = [1] \<or> r = [2, 0]" unfolding anchors by simp
    then show "get_at ?root r ''href'' \<noteq> None"
      by (auto simp: get_at_def elem_get_def)
  qed
  have a: "[2, 0] \<noteq> ([]::ref) \<and> tag_at ?root [2, 0] = Some ''a''
           \<and> get_at ?root [2, 0] ''href'' = Some ''/wiki/'' \<and> \<not> startswith ''/wiki/'' ''#''"
    by (simp add: tag_at_def get_at_def elem_get_def)
  from run_preview_sets_target [OF p h] a p show ?thesis by blast
qed

text \<open>
  Claim C1. In preview mode the tree processor is to set \<^verbatim>\<open>target\<close> to \<^verbatim>\<open>_blank\<close> on every
  anchor of the document whose \<^verbatim>\<open>href\<close> does not start with \<^verbatim>\<open>#\<close>, and to return the root
  it was given; the extension's docstring promises the same (all anchor targets set in
  preview mode). The code misses the anchor that has no \<^verbatim>\<open>href\<close>: \<^verbatim>\<open>a.get("href")\<close> is
  \<^verbatim>\<open>None\<close> there and \<^verbatim>\<open>startswith\<close> is called on it unguarded. At a document whose first
  anchor has a \<^verbatim>\<open>name\<close> and no \<^verbatim>\<open>href\<close>, \<open>run\<close> raises \<^verbatim>\<open>AttributeError\<close> instead of
  returning the root, and the second anchor, whose \<^verbatim>\<open>href\<close> does not start with \<^verbatim>\<open>#\<close>, is
  left without a \<^verbatim>\<open>target\<close>.
\<close>

theorem run_preview_raises_at_anchor_without_href:
  "run \<lparr>treeprocessors = empty_registry, preview = True\<rparr>
     (Element ''div'' [] None None
        [Element ''a'' [(''name'', ''top'')] None None [],
         Element ''a'' [(''href'', ''http://example.org/'')] None None []])
   = (Inl AttributeError,
      Element ''div'' [] None None
        [Element ''a'' [(''name'', ''top'')] None None [],
         Element ''a'' [(''href'', ''http://example.org/'')] None None []])"
  by (simp add: run_def findall_def elem_get_def)

text \<open>
  Claim C8, as amended. \<open>run\<close> raises exactly in preview mode on a tree with an anchor
  below the root that lacks \<^verbatim>\<open>href\<close>, and the exception is \<^verbatim>\<open>AttributeError\<close>; in every
  other case (no preview, or every anchor below the root carrying an \<^verbatim>\<open>href\<close>) it returns
  the root. The anchors are those below the root, not every anchor of the tree:
  \<^verbatim>\<open>findall(".//a")\<close> never yields the root, so the root's own \<^verbatim>\<open>href\<close> is never read.
\<close>

theorem run_raises_iff_anchor_lacks_href:
  "fst (run md root) =
     (if preview md \<and> (\<exists>r. r \<noteq> [] \<and> tag_at root r = Some ''a'' \<and> get_at root r ''href'' = None)
      then Inl AttributeError else Inr [])"
  by (rule run_result)

text \<open>Both cases at one document: an anchor without \<^verbatim>\<open>href\<close>, with and without preview.\<close>

theorem run_raises_witness:
  "fst (run \<lparr>treeprocessors = empty_registry, preview = True\<rparr>
         (Element ''div'' [] None None [Element ''a'' [(''name'', ''top'')] None None []]))
     = Inl AttributeError
   \<and> fst (run \<lparr>treeprocessors = empty_registry, preview = False\<rparr>
         (Element ''div'' [] None None [Element ''a'' [(''name'', ''top'')] None None []]))
     = Inr []"
proof -
  let ?root = "Element ''div'' [] None None [Element ''a'' [(''name'', ''top'')] None None []]"
  have "[0] \<noteq> ([]::ref) \<and> tag_at ?root [0] = Some ''a'' \<and> get_at ?root [0] ''href'' = None"
    by (simp add: tag_at_def get_at_def elem_get_def)
  then have "\<exists>r. r \<noteq> [] \<and> tag_at ?root r = Some ''a'' \<and> get_at ?root r ''href'' = None"
    by blast
  then show ?thesis
    using run_raises_iff_anchor_lacks_href [of "\<lparr>treeprocessors = empty_registry, preview = True\<rparr>" ?root]
      run_raises_iff_anchor_lacks_href [of "\<lparr>treeprocessors = empty_registry, preview = False\<rparr>" ?root]
    by simp
qed

text \<open>
  For every anchor of the tree, the root included, the claim fails: a tree whose root is
  an anchor without \<^verbatim>\<open>href\<close> holds an anchor lacking \<^verbatim>\<open>href\<close>, and in preview mode \<open>run\<close>
  raises nothing on it and returns the root.
\<close>

theorem run_root_anchor_counterexample:
  "run \<lparr>treeprocessors = empty_registry, preview = True\<rparr>
     (Element ''a'' [(''name'', ''top'')] (Some ''top'') None [])
   = (Inr [], Element ''a'' [(''name'', ''top'')] (Some ''top'') None [])"
  by (simp add: run_def findall_def)

text \<open>
  Claim C9. \<open>run\<close> changes nothing but the \<^verbatim>\<open>target\<close> of anchors whose \<^verbatim>\<open>href\<close> does not
  start with \<^verbatim>\<open>#\<close>. Without preview the tree is returned as it was. In any mode, and
  also when the call raises, the tree keeps its skeleton (tags, texts, tails and the
  shape); the attributes at a reference are unchanged, or the call was in preview mode,
  the element is an anchor below the root with an \<^verbatim>\<open>href\<close> not starting with \<^verbatim>\<open>#\<close>, and
  its attributes are the old ones with \<^verbatim>\<open>target\<close> set to \<^verbatim>\<open>_blank\<close>; an element whose
  \<^verbatim>\<open>href\<close> starts with \<^verbatim>\<open>#\<close> keeps all its attributes.
\<close>

theorem run_frame:
  "(\<not> preview md \<longrightarrow> run md root = (Inr [], root))
   \<and> skeleton (snd (run md root)) = skeleton root
   \<and> (\<forall>r. attrib_at (snd (run md root)) r = attrib_at root r
          \<or> (preview md \<and> r \<noteq> [] \<and> tag_at root r = Some ''a''
              \<and> (\<exists>h. get_at root r ''href'' = Some h \<and> \<not> startswith h ''#'')
              \<and> attrib_at (snd (run md root)) r =
                  map_option (AList.update ''target'' ''_blank'') (attrib_at root r)))
   \<and> (\<forall>r h. get_at root r ''href'' = Some h \<and> startswith h ''#''
          \<longrightarrow> attrib_at (snd (run md root)) r = attrib_at root r)"
proof (intro conjI allI impI)
  assume "\<not> preview md"
  then show "run md root = (Inr [], root)" by (simp add: run_def)
next
  show "skeleton (snd (run md root)) = skeleton root"
    by (simp add: run_tree for_anchors_skeleton)
next
  fix r
  show "attrib_at (snd (run md root)) r = attrib_at root r
          \<or> (preview md \<and> r \<noteq> [] \<and> tag_at root r = Some ''a''
              \<and> (\<exists>h. get_at root r ''href'' = Some h \<and> \<not> startswith h ''#'')
              \<and> attrib_at (snd (run md root)) r =
                  map_option (AList.update ''target'' ''_blank'') (attrib_at root r))"
    using for_anchors_attrib_at [of "findall root ''a''" root r]
    by (auto simp: run_tree set_findall)
next
  fix r h
  assume "get_at root r ''href'' = Some h \<and> startswith h ''#''"
  then show "attrib_at (snd (run md root)) r = attrib_at root r"
    using for_anchors_attrib_at [of "findall root ''a''" root r]
    by (auto simp: run_tree)
qed

text \<open>The theorem at a table-of-contents link in preview mode.\<close>

theorem run_frame_witness:
  "get_at (Element ''div'' [] None None
             [Element ''a'' [(''href'', ''#top''), (''class'', ''toc'')] None None []]) [0] ''href''
     = Some ''#top''
   \<and> startswith ''#top'' ''#''
   \<and> attrib_at (snd (run \<lparr>treeprocessors = empty_registry, preview = True\<rparr>
        (Element ''div'' [] None None
             [Element ''a'' [(''href'', ''#top''), (''class'', ''toc'')] None None []]))) [0]
     = Some [(''href'', ''#top''), (''class'', ''toc'')]"
proof -
  let ?md = "\<lparr>treeprocessors = empty_registry, preview = True\<rparr>"
  let ?root = "Element ''div'' [] None None
             [Element ''a'' [(''href'', ''#top''), (''class'', ''toc'')] None None []]"
  have h: "get_at ?root [0] ''href'' = Some ''#top'' \<and> startswith ''#top'' ''#''"
    by (simp add: get_at_def elem_get_def)
  have "attrib_at ?root [0] = Some [(''href'', ''#top''), (''class'', ''toc'')]"
    by (simp add: attrib_at_def)
  with run_frame [of ?md ?root] h show ?thesis by metis
qed

section \<open>Properties of the registry\<close>

subsection \<open>Lists\<close>

text \<open>
  Deleting at the index \<^verbatim>\<open>get_index_for_name\<close> computes removes the one item of that
  name, when names are listed once.
\<close>

lemma list_index_mem: "x \<in> set xs \<Longrightarrow> \<exists>i. list_index xs x = Some i"
  by (induction xs) auto

lemma del_index_filter:
  assumes "distinct (map name xs)" and "filter (\<lambda>y. name y = n) xs = x # rest"
    and "list_index xs x = Some i"
  shows "take i xs @ drop (Suc i) xs = filter (\<lambda>y. name y \<noteq> n) xs"
  using assms
proof (induction xs arbitrary: i)
  case Nil
  then show ?case by simp
next
  case (Cons y ys)
  show ?case
  proof (cases "name y = n")
    case True
    then have x: "x = y" using Cons.prems(2) by simp
    have "n \<notin> name ` set ys" using Cons.prems(1) True by auto
    then have "filter (\<lambda>y. name y \<noteq> n) ys = ys"
      by (auto simp: filter_id_conv)
    then show ?thesis using Cons.prems(3) True x by simp
  next
    case False
    then have f: "filter (\<lambda>y. name y = n) ys = x # rest" using Cons.prems(2) by simp
    then have "x \<in> set (filter (\<lambda>y. name y = n) ys)" by simp
    then have "name x = n" by simp
    then have "y \<noteq> x" using False by auto
    then obtain j where j: "list_index ys x = Some j" "i = Suc j"
      using Cons.prems(3) by auto
    have "take j ys @ drop (Suc j) ys = filter (\<lambda>y. name y \<noteq> n) ys"
      using Cons.IH [OF _ f j(1)] Cons.prems(1) by simp
    then show ?thesis using False j(2) by simp
  qed
qed

text \<open>In a list in descending priority the last item has the lowest priority.\<close>

lemma sorted_desc_last:
  assumes "xs \<noteq> []" and "sorted (map (\<lambda>item. - priority item) xs)"
  shows "priority (last xs) = Min (priority ` set xs)"
proof -
  have "\<forall>x \<in> set xs. priority (last xs) \<le> priority x"
    using assms
  proof (induction xs)
    case Nil
    then show ?case by simp
  next
    case (Cons y ys)
    show ?case
    proof (cases ys)
      case Nil
      then show ?thesis by simp
    next
      case (Cons z zs)
      then have ne: "ys \<noteq> []" by simp
      have s: "sorted (map (\<lambda>item. - priority item) ys)"
        using Cons.prems(2) by simp
      have l: "last ys \<in> set ys" using ne by simp
      have "- priority y \<le> - priority (last ys)"
        using Cons.prems(2) l by auto
      then show ?thesis using Cons.IH [OF ne s] ne by auto
    qed
  qed
  moreover have "last xs \<in> set xs" using assms(1) by simp
  ultimately show ?thesis
    by (intro Min_eqI [symmetric]) auto
qed

subsection \<open>Sorting and registering\<close>

lemma r_sort_props:
  assumes "registry_inv reg"
  shows "sorted (map (\<lambda>item. - priority item) (r_priority (r_sort reg)))"
    and "r_is_sorted (r_sort reg)"
    and "set (r_priority (r_sort reg)) = set (r_priority reg)"
    and "distinct (map name (r_priority (r_sort reg)))"
    and "r_data (r_sort reg) = r_data reg"
    and "r_sort (r_sort reg) = r_sort reg"
  using assms
  by (auto simp: registry_inv_def r_sort_def distinct_map inj_on_def)

lemma registry_inv_empty: "registry_inv empty_registry"
  by (simp add: registry_inv_def empty_registry_def)

lemma registry_inv_r_sort: "registry_inv reg \<Longrightarrow> registry_inv (r_sort reg)"
  using r_sort_props [of reg] by (simp add: registry_inv_def)

text \<open>
  What \<open>register\<close> does to a sorted registry: no exception, the item of that name (if
  any) gone from the list, the new item last.
\<close>

lemma register_sorted:
  assumes inv: "registry_inv reg" and srt: "r_is_sorted reg"
  shows "\<exists>reg'. register reg item n p = (Inr (), reg')
           \<and> r_priority reg' =
               filter (\<lambda>x. name x \<noteq> n) (r_priority reg) @ [\<lparr>name = n, priority = p\<rparr>]
           \<and> r_data reg' = AList.update n item (AList.delete n (r_data reg))
           \<and> \<not> r_is_sorted reg'"
proof (cases "contains reg n")
  case False
  then have "n \<notin> name ` set (r_priority reg)"
    using inv by (simp add: registry_inv_def contains_def)
  then have "filter (\<lambda>x. name x \<noteq> n) (r_priority reg) = r_priority reg"
    by (auto simp: filter_id_conv)
  moreover have "AList.delete n (r_data reg) = r_data reg"
    using False by (simp add: contains_def delete_id)
  ultimately show ?thesis using False by (simp add: register_def)
next
  case True
  have same: "r_sort reg = reg" using srt by (simp add: r_sort_def)
  have "n \<in> name ` set (r_priority reg)"
    using True inv by (simp add: registry_inv_def contains_def)
  then have "filter (\<lambda>x. name x = n) (r_priority reg) \<noteq> []"
    by (auto simp: filter_empty_conv)
  then obtain x rest where f: "filter (\<lambda>x. name x = n) (r_priority reg) = x # rest"
    by (cases "filter (\<lambda>x. name x = n) (r_priority reg)") auto
  then have "x \<in> set (filter (\<lambda>x. name x = n) (r_priority reg))" by simp
  then have "x \<in> set (r_priority reg)" by simp
  then obtain i where i: "list_index (r_priority reg) x = Some i"
    using list_index_mem by fastforce
  have d: "distinct (map name (r_priority reg))"
    using inv by (simp add: registry_inv_def)
  have del: "take i (r_priority reg) @ drop (Suc i) (r_priority reg) =
             filter (\<lambda>x. name x \<noteq> n) (r_priority reg)"
    by (rule del_index_filter [OF d f i])
  have "get_index_for_name reg n = (Inr i, reg)"
    using True f i by (simp add: get_index_for_name_def same)
  then have "deregister reg n =
      (Inr (), reg\<lparr>r_priority := filter (\<lambda>x. name x \<noteq> n) (r_priority reg),
                    r_data := AList.delete n (r_data reg)\<rparr>)"
    by (simp add: deregister_def del)
  then show ?thesis using True by (simp add: register_def)
qed

text \<open>
  Registering never raises on a registry that satisfies the invariant, and keeps the
  invariant: the registries \<open>registry_inv\<close> describes include all that \<^verbatim>\<open>Registry()\<close>
  and \<^verbatim>\<open>register\<close> build.
\<close>

lemma register_r_sort:
  assumes "registry_inv reg" and "contains reg n"
  shows "register reg item n p = register (r_sort reg) item n p"
proof -
  have c: "contains (r_sort reg) n" using assms r_sort_props(5) [of reg] by (simp add: contains_def)
  have "get_index_for_name reg n = get_index_for_name (r_sort reg) n"
    using assms c r_sort_props(6) [of reg] by (simp add: get_index_for_name_def)
  then have "deregister reg n = deregister (r_sort reg) n" by (simp add: deregister_def)
  then show ?thesis using assms(2) c by (simp add: register_def)
qed

lemma register_inv:
  assumes inv: "registry_inv reg"
  shows "fst (register reg item n p) = Inr () \<and> registry_inv (snd (register reg item n p))"
proof -
  have *: "fst (register r item n p) = Inr () \<and> registry_inv (snd (register r item n p))"
    if i: "registry_inv r" and f: "r_priority (snd (register r item n p)) =
          filter (\<lambda>x. name x \<noteq> n) (r_priority r) @ [\<lparr>name = n, priority = p\<rparr>]"
       "r_data (snd (register r item n p)) = AList.update n item (AList.delete n (r_data r))"
       "\<not> r_is_sorted (snd (register r item n p))" "fst (register r item n p) = Inr ()" for r
  proof -
    have "distinct (map name (filter (\<lambda>x. name x \<noteq> n) (r_priority r)))"
      using i by (simp add: registry_inv_def distinct_map_filter)
    moreover have "name ` set (filter (\<lambda>x. name x \<noteq> n) (r_priority r)) = fst ` set (r_data r) - {n}"
      using i by (auto simp: registry_inv_def)
    moreover have "distinct (map fst (AList.update n item (AList.delete n (r_data r))))"
      using i by (simp add: registry_inv_def distinct_update distinct_delete)
    moreover have "fst ` set (AList.update n item (AList.delete n (r_data r)))
                   = insert n (fst ` set (r_data r) - {n})"
      unfolding dom_map_of_conv_image_fst [symmetric]
      by (auto simp: update_conv' delete_conv')
    ultimately show ?thesis using f by (auto simp: registry_inv_def)
  qed
  show ?thesis
  proof (cases "contains reg n")
    case True
    obtain reg' where "register (r_sort reg) item n p = (Inr (), reg')"
           "r_priority reg' =
               filter (\<lambda>x. name x \<noteq> n) (r_priority (r_sort reg)) @ [\<lparr>name = n, priority = p\<rparr>]"
           "r_data reg' = AList.update n item (AList.delete n (r_data (r_sort reg)))"
           "\<not> r_is_sorted reg'"
      using register_sorted [OF registry_inv_r_sort [OF inv] r_sort_props(2) [OF inv]] by blast
    then show ?thesis
      using * [of "r_sort reg"] registry_inv_r_sort [OF inv] register_r_sort [OF inv True]
      by simp
  next
    case False
    then have "n \<notin> name ` set (r_priority reg)"
      using inv by (simp add: registry_inv_def contains_def)
    then have "filter (\<lambda>x. name x \<noteq> n) (r_priority reg) = r_priority reg"
      by (auto simp: filter_id_conv)
    moreover have "AList.delete n (r_data reg) = r_data reg"
      using False by (simp add: contains_def delete_id)
    ultimately show ?thesis using * [of reg] inv False by (simp add: register_def)
  qed
qed

section \<open>Properties of PreviewLinksExtension.extendMarkdown\<close>

text \<open>On a registry with no tree processor at all, \<^verbatim>\<open>_priority[-1]\<close> raises.\<close>

lemma extendMarkdown_empty:
  "r_priority (treeprocessors md) = [] \<Longrightarrow> fst (extendMarkdown md) = Inl IndexError"
  by (simp add: extendMarkdown_def r_sort_def Let_def)

text \<open>
  Claim C10. On a markdown instance whose registry of tree processors satisfies the
  registry's invariant and holds at least one processor, \<open>extendMarkdown\<close> raises
  nothing; the registry's list is then the sorted list of the processors registered
  before, without an earlier \<^verbatim>\<open>previewlinks\<close>, followed by \<^verbatim>\<open>previewlinks\<close> with the
  lowest priority registered before minus 5; the item stored under that name is the
  \<open>PreviewLinksTree\<close>; and the tree processors run in the order they ran in before, with
  \<^verbatim>\<open>previewlinks\<close> after all of them.
\<close>

theorem extendMarkdown_registers_last:
  assumes inv: "registry_inv (treeprocessors md)"
    and ne: "r_priority (treeprocessors md) \<noteq> []"
  shows "fst (extendMarkdown md) = Inr ()
     \<and> r_priority (treeprocessors (snd (extendMarkdown md))) =
          filter (\<lambda>x. name x \<noteq> ''previewlinks'') (r_priority (r_sort (treeprocessors md)))
          @ [\<lparr>name = ''previewlinks'',
               priority = Min (priority ` set (r_priority (treeprocessors md))) - 5\<rparr>]
     \<and> map_of (r_data (treeprocessors (snd (extendMarkdown md)))) ''previewlinks''
          = Some PreviewLinksTree
     \<and> processing_order (treeprocessors (snd (extendMarkdown md))) =
          filter (\<lambda>n. n \<noteq> ''previewlinks'') (processing_order (treeprocessors md))
          @ [''previewlinks'']
     \<and> preview (snd (extendMarkdown md)) = preview md"
proof -
  let ?reg = "r_sort (treeprocessors md)"
  let ?xs = "r_priority ?reg"
  let ?f = "\<lambda>item. - priority item"
  let ?p = "priority (last ?xs) - 5"
  let ?new = "\<lparr>name = ''previewlinks'', priority = ?p\<rparr>"
  let ?ys = "filter (\<lambda>x. name x \<noteq> ''previewlinks'') ?xs"
  note s = r_sort_props [OF inv]
  have xs_ne: "?xs \<noteq> []" using ne s(3) by (metis set_empty)
  have inv': "registry_inv ?reg"
    using inv s by (simp add: registry_inv_def)
  have min: "priority (last ?xs) = Min (priority ` set (r_priority (treeprocessors md)))"
    using sorted_desc_last [OF xs_ne s(1)] s(3) by simp
  obtain reg' where r: "register ?reg PreviewLinksTree ''previewlinks'' ?p = (Inr (), reg')"
    "r_priority reg' = ?ys @ [?new]"
    "r_data reg' = AList.update ''previewlinks'' PreviewLinksTree
                     (AList.delete ''previewlinks'' (r_data ?reg))"
    "\<not> r_is_sorted reg'"
    using register_sorted [OF inv' s(2)] by blast
  have ext: "extendMarkdown md = (Inr (), md\<lparr>treeprocessors := reg'\<rparr>)"
    using xs_ne r(1) by (cases ?xs) (simp_all add: extendMarkdown_def Let_def)
  have low: "\<forall>x \<in> set ?xs. ?p < priority x"
  proof
    fix x assume "x \<in> set ?xs"
    then have "Min (priority ` set ?xs) \<le> priority x" by simp
    then show "?p < priority x" using min s(3) by simp
  qed
  have "sorted (map ?f ?ys)"
    using s(1) by (simp add: sorted_filter)
  then have "sorted (map ?f (?ys @ [?new]))"
    using low by (auto simp: sorted_append less_imp_le)
  then have "sort_key ?f (?ys @ [?new]) = ?ys @ [?new]"
    by (rule sort_key_id_if_sorted)
  then have "processing_order reg' = map name ?ys @ [''previewlinks'']"
    using r(2,4) by (simp add: processing_order_def r_sort_def)
  also have "map name ?ys = filter (\<lambda>n. n \<noteq> ''previewlinks'') (map name ?xs)"
    by (simp add: filter_map comp_def)
  finally have order: "processing_order reg' =
      filter (\<lambda>n. n \<noteq> ''previewlinks'') (processing_order (treeprocessors md))
      @ [''previewlinks'']"
    by (simp add: processing_order_def s(6))
  have "map_of (r_data reg') ''previewlinks'' = Some PreviewLinksTree"
    by (simp add: r(3) update_conv')
  then show ?thesis using ext r(2) order min by simp
qed

text \<open>
  The theorem at a registry holding the library's three tree processors and the table of
  contents, registered out of priority order and not sorted yet.
\<close>

theorem extendMarkdown_registers_last_witness:
  "registry_inv
     \<lparr>r_data = [(''unescape'', OtherTreeprocessor ''unescape''),
                (''inline'', OtherTreeprocessor ''inline''),
                (''toc'', OtherTreeprocessor ''toc''),
                (''prettify'', OtherTreeprocessor ''prettify'')],
      r_priority = [\<lparr>name = ''unescape'', priority = 0\<rparr>, \<lparr>name = ''inline'', priority = 20\<rparr>,
                    \<lparr>name = ''toc'', priority = 5\<rparr>, \<lparr>name = ''prettify'', priority = 10\<rparr>],
      r_is_sorted = False\<rparr>
   \<and> fst (extendMarkdown
        \<lparr>treeprocessors =
           \<lparr>r_data = [(''unescape'', OtherTreeprocessor ''unescape''),
                (''inline'', OtherTreeprocessor ''inline''),
                (''toc'', OtherTreeprocessor ''toc''),
                (''prettify'', OtherTreeprocessor ''prettify'')],
            r_priority = [\<lparr>name = ''unescape'', priority = 0\<rparr>, \<lparr>name = ''inline'', priority = 20\<rparr>,
                    \<lparr>name = ''toc'', priority = 5\<rparr>, \<lparr>name = ''prettify'', priority = 10\<rparr>],
            r_is_sorted = False\<rparr>,
         preview = True\<rparr>) = Inr ()
   \<and> r_priority (treeprocessors (snd (extendMarkdown
        \<lparr>treeprocessors =
           \<lparr>r_data = [(''unescape'', OtherTreeprocessor ''unescape''),
                (''inline'', OtherTreeprocessor ''inline''),
                (''toc'', OtherTreeprocessor ''toc''),
                (''prettify'', OtherTreeprocessor ''prettify'')],
            r_priority = [\<lparr>name = ''unescape'', priority = 0\<rparr>, \<lparr>name = ''inline'', priority = 20\<rparr>,
                    \<lparr>name = ''toc'', priority = 5\<rparr>, \<lparr>name = ''prettify'', priority = 10\<rparr>],
            r_is_sorted = False\<rparr>,
         preview = True\<rparr>)))
       = [\<lparr>name = ''inline'', priority = 20\<rparr>, \<lparr>name = ''prettify'', priority = 10\<rparr>,
          \<lparr>name = ''toc'', priority = 5\<rparr>, \<lparr>name = ''unescape'', priority = 0\<rparr>,
          \<lparr>name = ''previewlinks'', priority = - 5\<rparr>]
   \<and> processing_order (treeprocessors (snd (extendMarkdown
        \<lparr>treeprocessors =
           \<lparr>r_data = [(''unescape'', OtherTreeprocessor ''unescape''),
                (''inline'', OtherTreeprocessor ''inline''),
                (''toc'', OtherTreeprocessor ''toc''),
                (''prettify'', OtherTreeprocessor ''prettify'')],
            r_priority = [\<lparr>name = ''unescape'', priority = 0\<rparr>, \<lparr>name = ''inline'', priority = 20\<rparr>,
                    \<lparr>name = ''toc'', priority = 5\<rparr>, \<lparr>name = ''prettify'', priority = 10\<rparr>],
            r_is_sorted = False\<rparr>,
         preview = True\<rparr>)))
       = [''inline'', ''prettify'', ''toc'', ''unescape'', ''previewlinks'']"
proof -
  let ?reg = "\<lparr>r_data = [(''unescape'', OtherTreeprocessor ''unescape''),
                (''inline'', OtherTreeprocessor ''inline''),
                (''toc'', OtherTreeprocessor ''toc''),
                (''prettify'', OtherTreeprocessor ''prettify'')],
      r_priority = [\<lparr>name = ''unescape'', priority = 0\<rparr>, \<lparr>name = ''inline'', priority = 20\<rparr>,
                    \<lparr>name = ''toc'', priority = 5\<rparr>, \<lparr>name = ''prettify'', priority = 10\<rparr>],
      r_is_sorted = False\<rparr>"
  let ?md = "\<lparr>treeprocessors = ?reg, preview = True\<rparr>"
  have inv: "registry_inv (treeprocessors ?md)"
    by (simp add: registry_inv_def)
  have ne: "r_priority (treeprocessors ?md) \<noteq> []" by simp
  have srt: "r_priority (r_sort ?reg) =
       [\<lparr>name = ''inline'', priority = 20\<rparr>, \<lparr>name = ''prettify'', priority = 10\<rparr>,
        \<lparr>name = ''toc'', priority = 5\<rparr>, \<lparr>name = ''unescape'', priority = 0\<rparr>]"
    by (simp add: r_sort_def)
  have ord: "processing_order ?reg = [''inline'', ''prettify'', ''toc'', ''unescape'']"
    by (simp add: processing_order_def srt)
  from extendMarkdown_registers_last [OF inv ne] inv ord show ?thesis
    by (simp add: srt)
qed

section \<open>Further properties\<close>

subsection \<open>Running the tree processor twice\<close>

text \<open>
  The loop leaves the list of anchors as it found it, and a second pass over the tree it
  left changes nothing more: the same anchors get the same \<^verbatim>\<open>target\<close> again, and a pass
  that raised raises again at the same anchor.
\<close>

lemma iter_skeleton:
  "iter (skeleton e) = iter e"
  "iter_from i (map skeleton cs) = iter_from i cs"
  by (induction e and i cs rule: iter_iter_from.induct) simp_all

lemma findall_for_anchors: "findall (snd (for_anchors rs root)) t = findall root t"
proof -
  have "iter (snd (for_anchors rs root)) = iter root"
    using for_anchors_skeleton [of rs root] iter_skeleton(1) by metis
  moreover have "\<And>r. map_option tag (subelement (snd (for_anchors rs root)) r)
                     = map_option tag (subelement root r)"
    using for_anchors_tag_at [of rs root] by (simp add: tag_at_def)
  ultimately show ?thesis by (simp add: findall_def)
qed

lemma update_at_id:
  "(\<And>x. subelement e r = Some x \<Longrightarrow> f x = x) \<Longrightarrow> update_at f r e = e"
proof (induction r arbitrary: e)
  case Nil
  then show ?case by simp
next
  case (Cons i p)
  show ?case
  proof (cases "i < length (children e)")
    case False
    then show ?thesis by simp
  next
    case True
    have "update_at f p (children e ! i) = children e ! i"
      using Cons.prems True by (intro Cons.IH) simp
    then show ?thesis using True by (cases e) simp
  qed
qed

lemma for_anchors_subelement_None:
  "(subelement (snd (for_anchors rs root)) r = None) = (subelement root r = None)"
  using for_anchors_tag_at [of rs root r] unfolding tag_at_def
  by (metis option.map_disc_iff)

lemma for_anchors_idem:
  "for_anchors rs (snd (for_anchors rs root)) = for_anchors rs root"
proof (induction rs arbitrary: root)
  case Nil
  show ?case by simp
next
  case (Cons a rs)
  let ?root' = "snd (for_anchors (a # rs) root)"
  show ?case
  proof (cases "subelement root a")
    case None
    then have s: "for_anchors (a # rs) root = for_anchors rs root" by simp
    have "subelement (snd (for_anchors rs root)) a = None"
      using None by (simp add: for_anchors_subelement_None)
    then show ?thesis unfolding s using Cons.IH [of root] by simp
  next
    case (Some e)
    note e = this
    show ?thesis
    proof (cases "elem_get e ''href''")
      case None
      then show ?thesis using e by simp
    next
      case (Some h)
      have ha: "get_at root a ''href'' = Some h" using e Some by (simp add: get_at_def)
      show ?thesis
      proof (cases "startswith h ''#''")
        case True
        then have s: "for_anchors (a # rs) root = for_anchors rs root"
          using e Some by simp
        have "get_at (snd (for_anchors rs root)) a ''href'' = Some h"
          using ha by (simp add: for_anchors_href_at)
        then obtain e' where "subelement (snd (for_anchors rs root)) a = Some e'"
          "elem_get e' ''href'' = Some h"
          by (cases "subelement (snd (for_anchors rs root)) a") (auto simp: get_at_def)
        then show ?thesis unfolding s using True Cons.IH [of root] by simp
      next
        case False
        let ?root1 = "update_at (elem_set ''target'' ''_blank'') a root"
        let ?root2 = "snd (for_anchors rs ?root1)"
        have s: "for_anchors (a # rs) root = for_anchors rs ?root1"
          using e Some False by simp
        have "get_at ?root2 a ''href'' = Some h"
          using ha by (simp add: for_anchors_href_at get_at_update_at)
        then obtain e' where e': "subelement ?root2 a = Some e'" "elem_get e' ''href'' = Some h"
          by (cases "subelement ?root2 a") (auto simp: get_at_def)
        have "attrib_at root a = Some (attrib e)"
          using e by (simp add: attrib_at_def)
        then have a1: "attrib_at ?root1 a = Some (AList.update ''target'' ''_blank'' (attrib e))"
          by (simp add: attrib_at_update_at)
        have "attrib_at ?root2 a = Some (AList.update ''target'' ''_blank'' (attrib e))"
          using for_anchors_attrib_at [of rs ?root1 a] a1 by auto
        then have "attrib e' = AList.update ''target'' ''_blank'' (attrib e)"
          using e'(1) by (simp add: attrib_at_def)
        then have "elem_set ''target'' ''_blank'' e' = e'"
          by (cases e') (simp add: elem_set_def)
        then have "update_at (elem_set ''target'' ''_blank'') a ?root2 = ?root2"
          using e'(1) by (intro update_at_id) simp
        then show ?thesis unfolding s using e' False Cons.IH [of ?root1] by simp
      qed
    qed
  qed
qed

text \<open>So \<open>run\<close> is idempotent, in its result and in the tree it leaves.\<close>

lemma run_idempotent: "run md (snd (run md root)) = run md root"
proof (cases "preview md")
  case False
  then show ?thesis by (simp add: run_def)
next
  case True
  let ?rs = "findall root ''a''"
  have t: "snd (run md root) = snd (for_anchors ?rs root)"
    using True by (simp add: run_tree)
  have "for_anchors (findall (snd (for_anchors ?rs root)) ''a'') (snd (for_anchors ?rs root))
        = for_anchors ?rs root"
    by (simp add: findall_for_anchors for_anchors_idem)
  then show ?thesis unfolding t using True by (simp add: run_def)
qed

text \<open>
  The root is never among the anchors of \<^verbatim>\<open>findall(".//a")\<close>: its own attributes stay,
  whatever its tag.
\<close>

lemma run_keeps_root_attrib: "attrib_at (snd (run md root)) [] = attrib_at root []"
  using for_anchors_attrib_at [of "findall root ''a''" root "[]"]
  by (auto simp: run_tree set_findall)

subsection \<open>The registry after the extension is loaded\<close>

text \<open>\<open>extendMarkdown\<close> leaves a registry that satisfies the invariant, also when it raises.\<close>

lemma extendMarkdown_keeps_inv:
  "registry_inv (treeprocessors md) \<Longrightarrow> registry_inv (treeprocessors (snd (extendMarkdown md)))"
proof -
  assume inv: "registry_inv (treeprocessors md)"
  let ?reg = "r_sort (treeprocessors md)"
  have i: "registry_inv ?reg" by (rule registry_inv_r_sort [OF inv])
  show ?thesis
  proof (cases "r_priority ?reg")
    case Nil
    then show ?thesis using i by (simp add: extendMarkdown_def Let_def)
  next
    case (Cons x xs)
    have "\<And>p x1 x2. register ?reg PreviewLinksTree ''previewlinks'' p = (x1, x2)
             \<Longrightarrow> registry_inv x2"
      using register_inv [OF i] by (metis snd_conv)
    then show ?thesis using Cons
      by (auto simp: extendMarkdown_def Let_def split: prod.splits)
  qed
qed

end
